theory Spec2Isabelle
  imports Main "HOL-Library.Word"
begin

unbundle bit_operations_syntax

section \<open>The key-value engine of bench\_vs.c\<close>

text \<open>
  The engine keeps everything in one flat byte region: the Bloom bitmap, the bucket table
  of 32-bit head offsets and the append-only data zone. The region is modelled as a store
  from byte addresses (offsets from \<^verbatim>\<open>db->mem\<close>) to bytes, because the three
  zones are views over the same bytes and the claims depend on writes to one zone leaving
  the others alone. 32-bit fields are read and written byte by byte in little-endian order;
  \<^verbatim>\<open>size_t\<close> is 64 bits wide and plain \<^verbatim>\<open>char\<close> is signed, as on the 64-bit
  desktop machines that the build instructions at the head of the file are for.
\<close>

type_synonym u8 = "8 word"
type_synonym u32 = "32 word"
type_synonym size_t = "64 word"
type_synonym bytes = "u8 list"
type_synonym memory = "nat \<Rightarrow> u8"

subsection \<open>Layout constants\<close>

definition BUCKET_COUNT :: nat where
  "BUCKET_COUNT = 8 * 1024"

definition BLOOM_SIZE :: nat where
  "BLOOM_SIZE = 2 ^ 20"

definition POOL_SIZE :: nat where
  "POOL_SIZE = 64 * 1024 * 1024"

definition BLOOM_OFF :: nat where
  "BLOOM_OFF = 0"

definition BUCKET_OFF :: nat where
  "BUCKET_OFF = BLOOM_SIZE div 8"

definition DATA_OFF :: nat where
  "DATA_OFF = BUCKET_OFF + BUCKET_COUNT * 4"

text \<open>
  \<^verbatim>\<open>sizeof(Entry)\<close>: three \<^verbatim>\<open>uint32_t\<close> fields (klen at offset 0, vlen at 4,
  next at 8) and a flexible array member \<^verbatim>\<open>data\<close> that starts at offset 12.
\<close>

definition sizeof_Entry :: nat where
  "sizeof_Entry = 12"

subsection \<open>The handle\<close>

text \<open>
  \<^verbatim>\<open>bloom\<close> and \<^verbatim>\<open>buckets\<close> are pointers into the region; the model keeps them as
  offsets from \<^verbatim>\<open>mem\<close>.
\<close>

record KVM =
  mem :: memory
  mem_size :: size_t
  bloom :: nat
  buckets :: nat
  write_pos :: size_t
  count :: size_t

subsection \<open>Memory accesses\<close>

definition load32 :: "memory \<Rightarrow> nat \<Rightarrow> u32" where
  "load32 m a =
     ucast (m a) OR push_bit 8 (ucast (m (a + 1))) OR
     push_bit 16 (ucast (m (a + 2))) OR push_bit 24 (ucast (m (a + 3)))"

definition store32 :: "memory \<Rightarrow> nat \<Rightarrow> u32 \<Rightarrow> memory" where
  "store32 m a w =
     (\<lambda>x. if x = a then ucast w
          else if x = a + 1 then ucast (drop_bit 8 w)
          else if x = a + 2 then ucast (drop_bit 16 w)
          else if x = a + 3 then ucast (drop_bit 24 w)
          else m x)"

definition load_bytes :: "memory \<Rightarrow> nat \<Rightarrow> nat \<Rightarrow> bytes" where
  "load_bytes m a n = map m [a ..< a + n]"

definition store_bytes :: "memory \<Rightarrow> nat \<Rightarrow> bytes \<Rightarrow> memory" where
  "store_bytes m a bs = (\<lambda>x. if a \<le> x \<and> x < a + length bs then bs ! (x - a) else m x)"

text \<open>
  \<^verbatim>\<open>memcpy(dst, src, n)\<close> from a caller's buffer into the region. Every call copies at
  most \<^verbatim>\<open>strlen(src)\<close> bytes, so the source is never read past its end.
\<close>

definition memcpy :: "memory \<Rightarrow> nat \<Rightarrow> bytes \<Rightarrow> nat \<Rightarrow> memory" where
  "memcpy m dst src n = store_bytes m dst (take n src)"

text \<open>\<^verbatim>\<open>memcmp(region + a, key, n) == 0\<close>.\<close>

definition memcmp_eq :: "memory \<Rightarrow> nat \<Rightarrow> bytes \<Rightarrow> nat \<Rightarrow> bool" where
  "memcmp_eq m a key n \<longleftrightarrow> load_bytes m a n = take n key"

text \<open>
  \<^verbatim>\<open>memset(region + a, c, n)\<close>.
\<close>

definition memset :: "memory \<Rightarrow> nat \<Rightarrow> u8 \<Rightarrow> nat \<Rightarrow> memory" where
  "memset m a c n = (\<lambda>x. if a \<le> x \<and> x < a + n then c else m x)"

subsection \<open>C strings\<close>

text \<open>
  A \<^verbatim>\<open>const char *\<close> argument is the list of bytes in the caller's buffer, the
  terminating zero byte of the buffer left implicit at the end of the list.
  \<^verbatim>\<open>strlen\<close> counts up to the first zero byte.
\<close>

fun strlen :: "bytes \<Rightarrow> nat" where
  "strlen [] = 0"
| "strlen (c # cs) = (if c = 0 then 0 else Suc (strlen cs))"

text \<open>
  \<^verbatim>\<open>uint32_t klen = strlen(key)\<close>: \<^verbatim>\<open>kvm_put\<close> and \<^verbatim>\<open>kvm_get\<close> hold the length of
  an argument in 32 bits. \<open>len32 s\<close> is that length as a number; it is \<open>strlen s\<close> for
  every text shorter than \<open>2 ^ 32\<close> bytes.
\<close>

abbreviation len32 :: "bytes \<Rightarrow> nat" where
  "len32 s \<equiv> unat (of_nat (strlen s) :: u32)"

subsection \<open>Hash functions\<close>

fun fnv1a_loop :: "u32 \<Rightarrow> bytes \<Rightarrow> u32" where
  "fnv1a_loop h [] = h"
| "fnv1a_loop h (c # cs) = fnv1a_loop ((h XOR ucast c) * 16777619) cs"

definition fnv1a :: "bytes \<Rightarrow> nat \<Rightarrow> u32" where
  "fnv1a key len = fnv1a_loop 2166136261 (take len key)"

text \<open>
  In \<^verbatim>\<open>hash2\<close> and \<^verbatim>\<open>hash3\<close> the byte \<^verbatim>\<open>key[i]\<close> is a plain \<^verbatim>\<open>char\<close>,
  promoted to \<^verbatim>\<open>int\<close> with its sign and then converted to \<^verbatim>\<open>uint32_t\<close>.
\<close>

fun hash2_loop :: "u32 \<Rightarrow> bytes \<Rightarrow> u32" where
  "hash2_loop h [] = h"
| "hash2_loop h (c # cs) = hash2_loop ((push_bit 5 h + h) XOR scast c) cs"

definition hash2 :: "bytes \<Rightarrow> nat \<Rightarrow> u32" where
  "hash2 key len = hash2_loop 0x5bd1e995 (take len key)"

fun hash3_loop :: "u32 \<Rightarrow> bytes \<Rightarrow> u32" where
  "hash3_loop h [] = h"
| "hash3_loop h (c # cs) = hash3_loop (h * 31 + scast c) cs"

definition hash3 :: "bytes \<Rightarrow> nat \<Rightarrow> u32" where
  "hash3 key len = hash3_loop 0x811c9dc5 (take len key)"

subsection \<open>Bloom filter\<close>

text \<open>
  \<^verbatim>\<open>db->bloom[h >> 3] |= (1 << (h & 7))\<close>: the byte is promoted to \<^verbatim>\<open>int\<close>, or-ed
  with the mask and stored back truncated to a byte.
\<close>

definition bloom_set :: "KVM \<Rightarrow> u32 \<Rightarrow> KVM" where
  "bloom_set db h =
     (let a = bloom db + unat (drop_bit 3 h)
      in db\<lparr>mem := (mem db)(a := ucast ((ucast (mem db a) :: u32) OR push_bit (unat (h AND 7)) 1))\<rparr>)"

definition bloom_test :: "KVM \<Rightarrow> u32 \<Rightarrow> bool" where
  "bloom_test db h \<longleftrightarrow>
     (ucast (mem db (bloom db + unat (drop_bit 3 h))) :: u32) AND push_bit (unat (h AND 7)) 1 \<noteq> 0"

definition bloom_add :: "KVM \<Rightarrow> bytes \<Rightarrow> nat \<Rightarrow> KVM" where
  "bloom_add db key len =
     (let h1 = fnv1a key len mod of_nat BLOOM_SIZE;
          h2 = hash2 key len mod of_nat BLOOM_SIZE;
          h3 = hash3 key len mod of_nat BLOOM_SIZE
      in bloom_set (bloom_set (bloom_set db h1) h2) h3)"

definition bloom_maybe :: "KVM \<Rightarrow> bytes \<Rightarrow> nat \<Rightarrow> bool" where
  "bloom_maybe db key len =
     (let h1 = fnv1a key len mod of_nat BLOOM_SIZE;
          h2 = hash2 key len mod of_nat BLOOM_SIZE;
          h3 = hash3 key len mod of_nat BLOOM_SIZE
      in bloom_test db h1 \<and> bloom_test db h2 \<and> bloom_test db h3)"

subsection \<open>Opening a handle\<close>

text \<open>
  \<^verbatim>\<open>kvm_open\<close> calls \<^verbatim>\<open>calloc\<close> for the handle, \<^verbatim>\<open>mmap\<close> for the region and,
  when \<^verbatim>\<open>mmap\<close> returns \<^verbatim>\<open>MAP_FAILED\<close>, \<^verbatim>\<open>malloc\<close>. What the allocators answer
  is an input of the model: whether \<^verbatim>\<open>calloc\<close> succeeded, and for \<^verbatim>\<open>mmap\<close> and
  \<^verbatim>\<open>malloc\<close> either the initial contents of the block they returned or \<open>None\<close> for
  their failure value. The function tests none of the pointers it then writes through; a
  write through a null pointer is the fault \<open>NullDereference\<close>.
\<close>

datatype fault = NullDereference

definition kvm_open :: "bool \<Rightarrow> memory option \<Rightarrow> memory option \<Rightarrow> fault + KVM" where
  "kvm_open calloc_ok mmap_result malloc_result =
     (if \<not> calloc_ok then Inl NullDereference
      else case (case mmap_result of None \<Rightarrow> malloc_result | Some m \<Rightarrow> Some m) of
             None \<Rightarrow> Inl NullDereference
           | Some m \<Rightarrow>
               Inr \<lparr>mem = memset m 0 0 DATA_OFF, mem_size = of_nat POOL_SIZE,
                    bloom = BLOOM_OFF, buckets = BUCKET_OFF,
                    write_pos = of_nat DATA_OFF, count = 0\<rparr>)"

subsection \<open>Insertion\<close>

text \<open>
  The result is the return code (\<open>0\<close>, or \<open>-1\<close> when the entry does not fit) and the
  handle after the call.
\<close>

definition entry_size :: "u32 \<Rightarrow> u32 \<Rightarrow> size_t" where
  "entry_size klen vlen = (of_nat sizeof_Entry + ucast klen + ucast vlen + 7) AND NOT 7"

definition kvm_put :: "KVM \<Rightarrow> bytes \<Rightarrow> bytes \<Rightarrow> int \<times> KVM" where
  "kvm_put db key val =
     (let klen = (of_nat (strlen key) :: u32);
          vlen = (of_nat (strlen val) :: u32)
      in if write_pos db + entry_size klen vlen > mem_size db then (- 1, db)
         else
           let bucket = unat (fnv1a key (unat klen) mod of_nat BUCKET_COUNT);
               e = unat (write_pos db);
               m1 = store32 (mem db) e klen;
               m2 = store32 m1 (e + 4) vlen;
               m3 = store32 m2 (e + 8) (load32 m2 (buckets db + 4 * bucket));
               m4 = memcpy m3 (e + sizeof_Entry) key (unat klen);
               m5 = memcpy m4 (e + sizeof_Entry + unat klen) val (unat vlen);
               m6 = store32 m5 (buckets db + 4 * bucket) (ucast (write_pos db));
               db1 = bloom_add (db\<lparr>mem := m6\<rparr>) key (unat klen);
               db2 = db1\<lparr>write_pos := write_pos db1 + entry_size klen vlen\<rparr>
           in (0, db2\<lparr>count := count db2 + 1\<rparr>))"

subsection \<open>Lookup\<close>

text \<open>
  The chain walk of \<^verbatim>\<open>kvm_get\<close>: the loop runs while the offset is at or beyond the
  data zone and has no other bound, so it is a partial function; \<open>None\<close> is a walk that
  never ends. A finished walk gives the returned string (the fresh copy of the value bytes,
  its terminator left implicit) or \<open>None\<close> for \<^verbatim>\<open>NULL\<close>, together with the handle
  after the call. The copy's \<^verbatim>\<open>malloc\<close> is taken to succeed.
\<close>

partial_function (option) chain_walk :: "KVM \<Rightarrow> bytes \<Rightarrow> u32 \<Rightarrow> u32 \<Rightarrow> (bytes option \<times> KVM) option" where
  "chain_walk db key klen off =
     (if DATA_OFF \<le> unat off then
        (if load32 (mem db) (unat off) = klen \<and>
            memcmp_eq (mem db) (unat off + sizeof_Entry) key (unat klen)
         then Some (Some (load_bytes (mem db)
                            (unat off + sizeof_Entry + unat (load32 (mem db) (unat off)))
                            (unat (load32 (mem db) (unat off + 4)))), db)
         else chain_walk db key klen (load32 (mem db) (unat off + 8)))
      else Some (None, db))"

declare chain_walk.simps [code]

definition kvm_get :: "KVM \<Rightarrow> bytes \<Rightarrow> (bytes option \<times> KVM) option" where
  "kvm_get db key =
     (let klen = (of_nat (strlen key) :: u32)
      in if \<not> bloom_maybe db key (unat klen) then Some (None, db)
         else chain_walk db key klen
                (load32 (mem db) (buckets db + 4 * unat (fnv1a key (unat klen) mod of_nat BUCKET_COUNT))))"

subsection \<open>Callers\<close>

text \<open>
  The harness drives the engine with loops of \<^verbatim>\<open>kvm_put\<close> and \<^verbatim>\<open>kvm_get\<close> calls on
  one handle and ignores the return codes. \<open>exec\<close> runs such a sequence of calls; it is
  \<open>None\<close> when a lookup in the sequence never returns.
\<close>

datatype op = Put bytes bytes | Get bytes

fun exec :: "KVM \<Rightarrow> op list \<Rightarrow> KVM option" where
  "exec db [] = Some db"
| "exec db (Put k v # ops) = exec (snd (kvm_put db k v)) ops"
| "exec db (Get k # ops) = (case kvm_get db k of None \<Rightarrow> None | Some (r, db') \<Rightarrow> exec db' ops)"

text \<open>The keys that a sequence of calls passes to \<^verbatim>\<open>kvm_put\<close>.\<close>

fun put_keys :: "op list \<Rightarrow> bytes set" where
  "put_keys [] = {}"
| "put_keys (Put k v # ops) = insert k (put_keys ops)"
| "put_keys (Get k # ops) = put_keys ops"

text \<open>A run of insertions that all return \<open>0\<close>; \<open>None\<close> as soon as one returns \<open>-1\<close>.\<close>

fun put_all :: "KVM \<Rightarrow> (bytes \<times> bytes) list \<Rightarrow> KVM option" where
  "put_all db [] = Some db"
| "put_all db ((k, v) # kvs) =
     (case kvm_put db k v of (rc, db') \<Rightarrow> if rc = 0 then put_all db' kvs else None)"

text \<open>
  An open handle is one that \<^verbatim>\<open>kvm_open\<close> returned, after any number of calls of
  \<^verbatim>\<open>kvm_put\<close> and \<^verbatim>\<open>kvm_get\<close> that returned.
\<close>

inductive reachable :: "KVM \<Rightarrow> bool" where
  opened: "kvm_open c mm ml = Inr db \<Longrightarrow> reachable db"
| put: "reachable db \<Longrightarrow> kvm_put db k v = (rc, db') \<Longrightarrow> reachable db'"
| got: "reachable db \<Longrightarrow> kvm_get db k = Some (r, db') \<Longrightarrow> reachable db'"

text \<open>
  The handle \<^verbatim>\<open>kvm_open\<close> returns when \<^verbatim>\<open>mmap\<close> succeeds with a zero-filled
  anonymous mapping.
\<close>

definition fresh :: KVM where
  "fresh = projr (kvm_open True (Some (\<lambda>_. 0)) None)"

subsection \<open>Notions of the specification\<close>

text \<open>
  Text as the interface takes it: a byte sequence without a zero byte whose length fits
  \<^verbatim>\<open>uint32_t\<close>, the type in which \<^verbatim>\<open>kvm_put\<close> and \<^verbatim>\<open>kvm_get\<close> hold the result
  of \<^verbatim>\<open>strlen\<close> and in which an entry records its key and value lengths.
\<close>

definition c_string :: "bytes \<Rightarrow> bool" where
  "c_string s \<longleftrightarrow> 0 \<notin> set s \<and> length s < 2 ^ 32"

text \<open>The specification's size of an entry: header, key and value, rounded up to 8 bytes.\<close>

definition round_up8 :: "nat \<Rightarrow> nat" where
  "round_up8 n = ((n + 7) div 8) * 8"

definition reserved :: "nat \<Rightarrow> nat \<Rightarrow> nat" where
  "reserved klen vlen = round_up8 (sizeof_Entry + klen + vlen)"

subsection \<open>The entries of a region\<close>

text \<open>
  The proofs describe the data zone by the list of the entries written so far, newest
  first: offset, stored key and stored value of each. \<open>stored s\<close> is what a call keeps of
  an argument: its first \<^verbatim>\<open>klen\<close> bytes, \<^verbatim>\<open>klen\<close> being \<^verbatim>\<open>strlen\<close> in 32 bits.
\<close>

type_synonym entry = "nat \<times> bytes \<times> bytes"

definition stored :: "bytes \<Rightarrow> bytes" where
  "stored s = take (len32 s) s"

definition bucket_of :: "bytes \<Rightarrow> nat" where
  "bucket_of k = unat (fnv1a k (length k) mod of_nat BUCKET_COUNT)"

fun head_of :: "entry list \<Rightarrow> nat \<Rightarrow> nat" where
  "head_of [] b = 0"
| "head_of ((off, k, v) # es) b = (if bucket_of k = b then off else head_of es b)"

fun entries_ok :: "memory \<Rightarrow> nat \<Rightarrow> entry list \<Rightarrow> bool" where
  "entries_ok m wp [] \<longleftrightarrow> True"
| "entries_ok m wp ((off, k, v) # es) \<longleftrightarrow>
     DATA_OFF \<le> off \<and> off + sizeof_Entry + length k + length v \<le> wp \<and>
     load32 m off = of_nat (length k) \<and>
     load32 m (off + 4) = of_nat (length v) \<and>
     load32 m (off + 8) = of_nat (head_of es (bucket_of k)) \<and>
     load_bytes m (off + sizeof_Entry) (length k) = k \<and>
     load_bytes m (off + sizeof_Entry + length k) (length v) = v \<and>
     entries_ok m wp es"

definition kvm_inv :: "KVM \<Rightarrow> entry list \<Rightarrow> bool" where
  "kvm_inv db es \<longleftrightarrow>
     mem_size db = of_nat POOL_SIZE \<and> bloom db = BLOOM_OFF \<and> buckets db = BUCKET_OFF \<and>
     DATA_OFF \<le> unat (write_pos db) \<and> unat (write_pos db) \<le> POOL_SIZE \<and>
     entries_ok (mem db) (unat (write_pos db)) es \<and>
     (\<forall>b < BUCKET_COUNT. load32 (mem db) (BUCKET_OFF + 4 * b) = of_nat (head_of es b)) \<and>
     (\<forall>e \<in> set es. bloom_maybe db (fst (snd e)) (length (fst (snd e))))"

text \<open>The value of the newest entry with a given key.\<close>

fun lookup :: "entry list \<Rightarrow> bytes \<Rightarrow> bytes option" where
  "lookup [] sk = None"
| "lookup ((off, k, v) # es) sk = (if k = sk then Some v else lookup es sk)"

section \<open>Memory and word lemmas\<close>

lemma load32_store32: "load32 (store32 m a w) a = w"
proof (rule bit_word_eqI)
  fix n
  assume "n < LENGTH(32)"
  then consider "n < 8" | "8 \<le> n" "n < 16" | "16 \<le> n" "n < 24" | "24 \<le> n" "n < 32"
    by fastforce
  then show "bit (load32 (store32 m a w) a) n = bit w n"
    by cases (auto simp add: load32_def store32_def bit_simps)
qed

lemma store32_other: "x < a \<or> a + 4 \<le> x \<Longrightarrow> store32 m a w x = m x"
  by (auto simp: store32_def)

lemma load32_eqI: "(\<And>x. a \<le> x \<Longrightarrow> x < a + 4 \<Longrightarrow> m' x = m x) \<Longrightarrow> load32 m' a = load32 m a"
  by (simp add: load32_def)

lemma load_bytes_eqI:
  "(\<And>x. a \<le> x \<Longrightarrow> x < a + n \<Longrightarrow> m' x = m x) \<Longrightarrow> load_bytes m' a n = load_bytes m a n"
  by (simp add: load_bytes_def)

lemma store_bytes_other: "x < a \<or> a + length bs \<le> x \<Longrightarrow> store_bytes m a bs x = m x"
  by (auto simp: store_bytes_def)

lemma load_bytes_store_bytes: "load_bytes (store_bytes m a bs) a (length bs) = bs"
  by (auto simp: load_bytes_def store_bytes_def intro!: nth_equalityI)

lemma seven_mask: "(7 :: 'a::len word) = mask 3"
  by (simp add: mask_eq_exp_minus_1)

lemma unat_and7: "unat ((h :: u32) AND 7) < 8"
proof -
  have "h AND 7 = take_bit 3 h"
    by (simp add: seven_mask take_bit_eq_mask)
  then have "unat (h AND 7) = take_bit 3 (unat h)"
    by (simp add: unsigned_take_bit_eq)
  also have "\<dots> < 2 ^ 3"
    by (rule take_bit_nat_less_exp)
  finally show ?thesis by simp
qed

lemma bloom_byte: "(ucast ((ucast (x::u8) :: u32) OR push_bit n 1) :: u8) = x OR push_bit n 1"
  apply (rule bit_word_eqI)
  apply (auto simp add: bit_simps)
  done

lemma bloom_test_bit: "((ucast (x::u8) :: u32) AND push_bit n 1 \<noteq> 0) \<longleftrightarrow> bit x n"
proof
  assume "(ucast x :: u32) AND push_bit n 1 \<noteq> 0"
  then obtain k where "bit ((ucast x :: u32) AND push_bit n 1) k"
    by (auto simp: bit_eq_iff)
  then show "bit x n"
    by (auto simp: bit_simps)
next
  assume b: "bit x n"
  then have "n < 8" using bit_imp_le_length[of x n] by simp
  with b have "bit ((ucast x :: u32) AND push_bit n 1) n"
    by (auto simp: bit_simps)
  then show "(ucast x :: u32) AND push_bit n 1 \<noteq> 0"
    by (metis bit_0_eq bot_apply bot_bool_def)
qed

lemma and_not7: "(x :: size_t) AND NOT 7 = push_bit 3 (drop_bit 3 x)"
  apply (simp only: seven_mask)
  apply (rule bit_word_eqI)
  apply (auto simp add: bit_simps)
  done

lemma unat_and_not7: "unat ((x :: size_t) AND NOT 7) = (unat x div 8) * 8"
proof -
  have "unat (push_bit 3 (drop_bit 3 x)) = (unat (drop_bit 3 x) * 8) mod 2 ^ 64"
    by (simp add: push_bit_eq_mult unat_word_ariths)
  also have "unat (drop_bit 3 x) = unat x div 8"
    by (simp add: unat_drop_bit_eq drop_bit_eq_div unat_div)
  also have "(unat x div 8 * 8) mod 2 ^ 64 = unat x div 8 * 8"
  proof -
    have "unat x < 2 ^ 64" using unsigned_less[of x] by simp
    then show ?thesis by simp
  qed
  finally show ?thesis unfolding and_not7 .
qed

lemma entry_size_unat: "unat (entry_size klen vlen) = reserved (unat klen) (unat vlen)"
proof -
  have k: "unat klen < 2 ^ 32" and v: "unat vlen < 2 ^ 32"
    using unsigned_less[of klen] unsigned_less[of vlen] by simp_all
  have "unat (12 + ucast klen + ucast vlen + 7 :: size_t) = 12 + unat klen + unat vlen + 7"
    using k v by (simp add: unat_word_ariths unsigned_ucast_eq take_bit_nat_eq_self)
  then show ?thesis
    unfolding entry_size_def sizeof_Entry_def unat_and_not7 reserved_def round_up8_def by simp
qed

lemma bloom_set_fields [simp]:
  "mem_size (bloom_set db h) = mem_size db" "bloom (bloom_set db h) = bloom db"
  "buckets (bloom_set db h) = buckets db" "write_pos (bloom_set db h) = write_pos db"
  "count (bloom_set db h) = count db"
  by (simp_all add: bloom_set_def Let_def)

lemma bloom_set_mem:
  "mem (bloom_set db h) x =
     (if x = bloom db + unat (drop_bit 3 h) then mem db x OR push_bit (unat (h AND 7)) 1 else mem db x)"
  unfolding bloom_set_def Let_def bloom_byte by simp

lemma bloom_test_iff:
  "bloom_test db h \<longleftrightarrow> bit (mem db (bloom db + unat (drop_bit 3 h))) (unat (h AND 7))"
  unfolding bloom_test_def bloom_test_bit ..

lemma bloom_test_set_same: "bloom_test (bloom_set db h) h"
  using unat_and7[of h]
  by (simp add: bloom_test_iff bloom_set_mem bit_simps)

lemma bloom_test_set_mono: "bloom_test db h' \<Longrightarrow> bloom_test (bloom_set db h) h'"
  by (auto simp add: bloom_test_iff bloom_set_mem bit_simps)

lemma bloom_index_bound: "unat (drop_bit 3 ((x :: u32) mod of_nat BLOOM_SIZE)) < BUCKET_OFF"
proof -
  have "unat (x mod of_nat BLOOM_SIZE) < BLOOM_SIZE"
    by (simp add: BLOOM_SIZE_def unat_mod)
  then show ?thesis
    by (simp add: unat_drop_bit_eq drop_bit_eq_div unat_div BUCKET_OFF_def BLOOM_SIZE_def)
qed

lemma bloom_add_fields [simp]:
  "mem_size (bloom_add db key len) = mem_size db" "bloom (bloom_add db key len) = bloom db"
  "buckets (bloom_add db key len) = buckets db" "write_pos (bloom_add db key len) = write_pos db"
  "count (bloom_add db key len) = count db"
  by (simp_all add: bloom_add_def Let_def)

lemma bloom_add_mem_other:
  "bloom db + BUCKET_OFF \<le> x \<Longrightarrow> mem (bloom_add db key len) x = mem db x"
  using bloom_index_bound[of "fnv1a key len"] bloom_index_bound[of "hash2 key len"]
    bloom_index_bound[of "hash3 key len"]
  by (simp add: bloom_add_def Let_def bloom_set_mem)

lemma bloom_maybe_add_same: "bloom_maybe (bloom_add db key len) key len"
  by (simp add: bloom_maybe_def bloom_add_def Let_def bloom_test_set_same bloom_test_set_mono)

lemma bloom_maybe_add_mono: "bloom_maybe db k l \<Longrightarrow> bloom_maybe (bloom_add db key len) k l"
  by (simp add: bloom_maybe_def bloom_add_def Let_def bloom_test_set_mono)

lemma bloom_test_cong:
  "bloom db' = bloom db \<Longrightarrow> (\<And>x. x < bloom db + BUCKET_OFF \<Longrightarrow> mem db' x = mem db x) \<Longrightarrow>
   bloom_test db' (h mod of_nat BLOOM_SIZE) = bloom_test db (h mod of_nat BLOOM_SIZE)"
  using bloom_index_bound[of h] by (simp add: bloom_test_iff)

lemma bloom_maybe_cong:
  assumes "bloom db' = bloom db"
    and "\<And>x. x < bloom db + BUCKET_OFF \<Longrightarrow> mem db' x = mem db x"
  shows "bloom_maybe db' k l = bloom_maybe db k l"
proof -
  have "bloom_test db' (h mod of_nat BLOOM_SIZE) = bloom_test db (h mod of_nat BLOOM_SIZE)" for h
    by (rule bloom_test_cong) (use assms in auto)
  then show ?thesis
    unfolding bloom_maybe_def Let_def by (simp only:)
qed

section \<open>What a call keeps of its arguments\<close>

lemma strlen_le_length: "strlen s \<le> length s"
  by (induction s) auto

lemma take_strlen: "take (strlen s) s = takeWhile (\<lambda>c. c \<noteq> 0) s"
  by (induction s) auto

lemma strlen_no_zero: "0 \<notin> set s \<Longrightarrow> strlen s = length s"
  by (induction s) auto

lemma unat_of_nat_le: "unat (of_nat n :: u32) \<le> n"
  by (simp add: unat_of_nat)

text \<open>
  The 32-bit length is the length of the text below 4 GiB; beyond, the conversion wraps: a
  text of \<open>2 ^ 32\<close> bytes is measured as empty.
\<close>

lemma len32_short: "strlen s < 2 ^ 32 \<Longrightarrow> len32 s = strlen s"
  by (simp add: unat_of_nat)

lemma len32_wraps: "len32 (replicate (2 ^ 32) 65) = 0"
  by (simp add: strlen_no_zero)

lemma length_stored: "length (stored s) = unat (of_nat (strlen s) :: u32)"
  using unat_of_nat_le[of "strlen s"] strlen_le_length[of s]
  by (simp add: stored_def)

lemma of_nat_length_stored: "(of_nat (length (stored s)) :: u32) = of_nat (strlen s)"
  by (simp add: length_stored)

lemma stored_c_string: "c_string s \<Longrightarrow> stored s = s"
  by (simp add: stored_def c_string_def strlen_no_zero unat_of_nat)

lemma length_stored_lt: "length (stored s) < 2 ^ 32"
  using unsigned_less[of "of_nat (strlen s) :: u32"] by (simp add: length_stored)

lemma take_length_take: "take (length (take n s)) (take n s) = take n s"
  by (rule take_all) simp

lemma fnv1a_stored: "fnv1a key (unat (of_nat (strlen key) :: u32)) = fnv1a (stored key) (length (stored key))"
  unfolding fnv1a_def stored_def take_length_take ..

lemma hash2_stored: "hash2 key (unat (of_nat (strlen key) :: u32)) = hash2 (stored key) (length (stored key))"
  unfolding hash2_def stored_def take_length_take ..

lemma hash3_stored: "hash3 key (unat (of_nat (strlen key) :: u32)) = hash3 (stored key) (length (stored key))"
  unfolding hash3_def stored_def take_length_take ..

lemma bucket_stored:
  "unat (fnv1a key (unat (of_nat (strlen key) :: u32)) mod of_nat BUCKET_COUNT) = bucket_of (stored key)"
  by (simp only: bucket_of_def fnv1a_stored)

lemma bucket_of_less: "bucket_of k < BUCKET_COUNT"
  by (simp add: bucket_of_def BUCKET_COUNT_def unat_mod)

lemma bloom_add_stored:
  "bloom_add db key (unat (of_nat (strlen key) :: u32)) = bloom_add db (stored key) (length (stored key))"
  unfolding bloom_add_def fnv1a_stored hash2_stored hash3_stored ..

lemma bloom_maybe_stored:
  "bloom_maybe db key (unat (of_nat (strlen key) :: u32)) = bloom_maybe db (stored key) (length (stored key))"
  unfolding bloom_maybe_def fnv1a_stored hash2_stored hash3_stored ..

lemma memcpy_stored:
  "memcpy m a key (unat (of_nat (strlen key) :: u32)) = store_bytes m a (stored key)"
  by (simp add: memcpy_def stored_def)

section \<open>Frame rule for the entries\<close>

lemma entries_ok_frame:
  assumes "entries_ok m wp es"
    and "\<And>x. DATA_OFF \<le> x \<Longrightarrow> x < wp \<Longrightarrow> m' x = m x"
    and "wp \<le> wp'"
  shows "entries_ok m' wp' es"
  using assms(1)
proof (induction es)
  case Nil
  then show ?case by simp
next
  case (Cons e es)
  obtain off k v where e: "e = (off, k, v)" by (cases e)
  from Cons.prems e have
    b: "DATA_OFF \<le> off" "off + sizeof_Entry + length k + length v \<le> wp" and
    rest: "entries_ok m wp es" by simp_all
  have f1: "load32 m' off = load32 m off"
    using b by (intro load32_eqI assms(2)) (simp_all add: sizeof_Entry_def)
  have f2: "load32 m' (off + 4) = load32 m (off + 4)"
    using b by (intro load32_eqI assms(2)) (simp_all add: sizeof_Entry_def)
  have f3: "load32 m' (off + 8) = load32 m (off + 8)"
    using b by (intro load32_eqI assms(2)) (simp_all add: sizeof_Entry_def)
  have f4: "load_bytes m' (off + sizeof_Entry) (length k) = load_bytes m (off + sizeof_Entry) (length k)"
    using b by (intro load_bytes_eqI assms(2)) simp_all
  have f5: "load_bytes m' (off + sizeof_Entry + length k) (length v)
              = load_bytes m (off + sizeof_Entry + length k) (length v)"
    using b by (intro load_bytes_eqI assms(2)) simp_all
  from Cons.prems e Cons.IH[OF rest] assms(3) show ?case
    by (simp add: f1 f2 f3 f4 f5)
qed

section \<open>Insertion keeps the invariant\<close>

lemma DATA_OFF_val: "DATA_OFF = 163840" "BUCKET_OFF = 131072" "POOL_SIZE = 67108864"
  by (simp_all add: DATA_OFF_def BUCKET_OFF_def BLOOM_SIZE_def BUCKET_COUNT_def POOL_SIZE_def)

lemma reserved_bounds: "sizeof_Entry + k + v \<le> reserved k v" "reserved k v \<le> sizeof_Entry + k + v + 7"
  by (simp_all add: reserved_def round_up8_def)

lemma put_capacity_check:
  assumes "unat (write_pos db) \<le> POOL_SIZE" and "mem_size db = of_nat POOL_SIZE"
  shows "write_pos db + entry_size klen vlen > mem_size db \<longleftrightarrow>
         POOL_SIZE < unat (write_pos db) + reserved (unat klen) (unat vlen)"
    and "unat (write_pos db + entry_size klen vlen) = unat (write_pos db) + reserved (unat klen) (unat vlen)"
proof -
  have k: "unat klen < 2 ^ 32" and v: "unat vlen < 2 ^ 32"
    using unsigned_less[of klen] unsigned_less[of vlen] by simp_all
  have "reserved (unat klen) (unat vlen) < 2 ^ 34"
    using reserved_bounds(2)[of "unat klen" "unat vlen"] k v by (simp add: sizeof_Entry_def)
  with assms(1) have "unat (write_pos db) + unat (entry_size klen vlen) < 2 ^ 64"
    by (simp add: entry_size_unat DATA_OFF_val)
  then show s: "unat (write_pos db + entry_size klen vlen)
      = unat (write_pos db) + reserved (unat klen) (unat vlen)"
    by (simp add: unat_add_lem[THEN iffD1] entry_size_unat)
  have "unat (of_nat POOL_SIZE :: size_t) = POOL_SIZE"
    by (simp add: DATA_OFF_val unat_of_nat)
  with s show "write_pos db + entry_size klen vlen > mem_size db \<longleftrightarrow>
         POOL_SIZE < unat (write_pos db) + reserved (unat klen) (unat vlen)"
    by (simp add: word_less_nat_alt assms(2))
qed

lemma kvm_put_full:
  assumes inv: "kvm_inv db es"
    and full: "POOL_SIZE < unat (write_pos db) + reserved (length (stored key)) (length (stored val))"
  shows "kvm_put db key val = (- 1, db)"
proof -
  from inv have "unat (write_pos db) \<le> POOL_SIZE" "mem_size db = of_nat POOL_SIZE"
    by (simp_all add: kvm_inv_def)
  from put_capacity_check(1)[OF this] full show ?thesis
    by (simp add: kvm_put_def Let_def length_stored)
qed

lemma kvm_put_fits:
  assumes inv: "kvm_inv db es"
    and fits: "unat (write_pos db) + reserved (length (stored key)) (length (stored val)) \<le> POOL_SIZE"
  shows "\<exists>db'. kvm_put db key val = (0, db') \<and>
           kvm_inv db' ((unat (write_pos db), stored key, stored val) # es) \<and>
           unat (write_pos db') =
             unat (write_pos db) + reserved (length (stored key)) (length (stored val)) \<and>
           count db' = count db + 1"
proof -
  let ?klen = "of_nat (strlen key) :: u32" and ?vlen = "of_nat (strlen val) :: u32"
  let ?sk = "stored key" and ?sv = "stored val"
  define wp where "wp = unat (write_pos db)"
  define b where "b = bucket_of ?sk"
  define slot where "slot = BUCKET_OFF + 4 * b"
  define m1 where "m1 = store32 (mem db) wp ?klen"
  define m2 where "m2 = store32 m1 (wp + 4) ?vlen"
  define m3 where "m3 = store32 m2 (wp + 8) (load32 m2 slot)"
  define m4 where "m4 = store_bytes m3 (wp + sizeof_Entry) ?sk"
  define m5 where "m5 = store_bytes m4 (wp + sizeof_Entry + unat ?klen) ?sv"
  define m6 where "m6 = store32 m5 slot (ucast (write_pos db))"
  define db1 where "db1 = bloom_add (db\<lparr>mem := m6\<rparr>) ?sk (length ?sk)"
  define db' where "db' = db1\<lparr>write_pos := write_pos db + entry_size ?klen ?vlen,
                              count := count db + 1\<rparr>"
  from inv have ms: "mem_size db = of_nat POOL_SIZE" and bl: "bloom db = BLOOM_OFF"
    and bu: "buckets db = BUCKET_OFF" and wp1: "DATA_OFF \<le> wp" and wp2: "wp \<le> POOL_SIZE"
    and eok: "entries_ok (mem db) wp es"
    and heads: "\<And>b. b < BUCKET_COUNT \<Longrightarrow> load32 (mem db) (BUCKET_OFF + 4 * b) = of_nat (head_of es b)"
    and blm: "\<And>e. e \<in> set es \<Longrightarrow> bloom_maybe db (fst (snd e)) (length (fst (snd e)))"
    by (simp_all add: kvm_inv_def wp_def)
  have lk: "unat ?klen = length ?sk" and lv: "unat ?vlen = length ?sv"
    by (simp_all add: length_stored)
  have check: "\<not> write_pos db + entry_size ?klen ?vlen > mem_size db"
    using put_capacity_check(1)[of db ?klen ?vlen] wp2 ms fits by (simp add: wp_def lk lv)
  have wp': "unat (write_pos db + entry_size ?klen ?vlen) = wp + reserved (length ?sk) (length ?sv)"
    using put_capacity_check(2)[of db ?klen ?vlen] wp2 ms by (simp add: wp_def lk lv)
  have put: "kvm_put db key val = (0, db')"
    unfolding kvm_put_def Let_def bucket_stored memcpy_stored bloom_add_stored
      db'_def db1_def m6_def m5_def m4_def m3_def m2_def m1_def slot_def b_def wp_def bu
    using check by simp
  have bless: "b < BUCKET_COUNT"
    by (simp add: b_def bucket_of_less)
  then have slot1: "BUCKET_OFF \<le> slot" and slot2: "slot + 4 \<le> DATA_OFF"
    by (simp_all add: slot_def DATA_OFF_def BUCKET_COUNT_def)
  have tot: "wp + sizeof_Entry + length ?sk + length ?sv \<le> wp + reserved (length ?sk) (length ?sv)"
    using reserved_bounds(1)[of "length ?sk" "length ?sv"] by simp
  have se: "sizeof_Entry = 12" by (simp add: sizeof_Entry_def)
  have m1_old: "m1 x = mem db x" if "x < wp" for x
    using that by (simp add: m1_def store32_other)
  have m2_old: "m2 x = mem db x" if "x < wp" for x
    using that by (simp add: m2_def store32_other m1_old)
  have m5_old: "m5 x = mem db x" if "x < wp" for x
    using that by (simp add: m5_def m4_def m3_def store32_other store_bytes_other m2_old)
  have m6_old: "m6 x = mem db x" if "x < wp" "x < slot \<or> slot + 4 \<le> x" for x
    using that by (simp add: m6_def store32_other m5_old)
  have m6_new: "m6 x = m5 x" if "wp \<le> x" for x
    using that wp1 slot2 by (simp add: m6_def store32_other)
  have f_klen: "load32 m6 wp = ?klen"
  proof -
    have "load32 m6 wp = load32 m1 wp"
      by (rule load32_eqI)
        (simp add: m6_new m5_def m4_def m3_def m2_def store32_other store_bytes_other se)
    then show ?thesis by (simp add: m1_def load32_store32)
  qed
  have f_vlen: "load32 m6 (wp + 4) = ?vlen"
  proof -
    have "load32 m6 (wp + 4) = load32 m2 (wp + 4)"
      by (rule load32_eqI)
        (simp add: m6_new m5_def m4_def m3_def store32_other store_bytes_other se)
    then show ?thesis by (simp add: m2_def load32_store32)
  qed
  have f_next: "load32 m6 (wp + 8) = of_nat (head_of es b)"
  proof -
    have "load32 m6 (wp + 8) = load32 m3 (wp + 8)"
      by (rule load32_eqI)
        (simp add: m6_new m5_def m4_def store32_other store_bytes_other se)
    also have "\<dots> = load32 m2 slot"
      by (simp add: m3_def load32_store32)
    also have "\<dots> = load32 (mem db) slot"
      using wp1 slot2 by (intro load32_eqI m2_old) simp
    finally show ?thesis using heads[OF bless] by (simp add: slot_def)
  qed
  have f_key: "load_bytes m6 (wp + sizeof_Entry) (length ?sk) = ?sk"
  proof -
    have "load_bytes m6 (wp + sizeof_Entry) (length ?sk) = load_bytes m4 (wp + sizeof_Entry) (length ?sk)"
      by (rule load_bytes_eqI) (simp add: m6_new m5_def store_bytes_other lk)
    then show ?thesis by (simp add: m4_def load_bytes_store_bytes)
  qed
  have f_val: "load_bytes m6 (wp + sizeof_Entry + length ?sk) (length ?sv) = ?sv"
  proof -
    have "load_bytes m6 (wp + sizeof_Entry + length ?sk) (length ?sv)
            = load_bytes m5 (wp + sizeof_Entry + length ?sk) (length ?sv)"
      by (rule load_bytes_eqI) (simp add: m6_new)
    then show ?thesis by (simp add: m5_def lk load_bytes_store_bytes)
  qed
  have f_slot: "load32 m6 slot = of_nat wp"
    by (simp add: m6_def load32_store32 wp_def)
  have mem': "mem db' x = m6 x" if "BUCKET_OFF \<le> x" for x
    using that bl by (simp add: db'_def db1_def bloom_add_mem_other BLOOM_OFF_def)
  have bloom': "bloom db' = bloom db"
    by (simp add: db'_def db1_def)
  have fields': "mem_size db' = mem_size db" "buckets db' = buckets db"
    by (simp_all add: db'_def db1_def)
  have wpos: "unat (write_pos db') = wp + reserved (length ?sk) (length ?sv)"
    by (simp add: db'_def wp')
  have bo: "BUCKET_OFF \<le> DATA_OFF"
    by (simp add: DATA_OFF_def)
  have g_klen: "load32 (mem db') wp = of_nat (length ?sk)"
  proof -
    have "load32 (mem db') wp = load32 m6 wp"
      using wp1 bo by (intro load32_eqI mem') simp
    then show ?thesis by (simp add: f_klen of_nat_length_stored)
  qed
  have g_vlen: "load32 (mem db') (wp + 4) = of_nat (length ?sv)"
  proof -
    have "load32 (mem db') (wp + 4) = load32 m6 (wp + 4)"
      using wp1 bo by (intro load32_eqI mem') simp
    then show ?thesis by (simp add: f_vlen of_nat_length_stored)
  qed
  have g_next: "load32 (mem db') (wp + 8) = of_nat (head_of es b)"
  proof -
    have "load32 (mem db') (wp + 8) = load32 m6 (wp + 8)"
      using wp1 bo by (intro load32_eqI mem') simp
    then show ?thesis by (simp add: f_next)
  qed
  have g_key: "load_bytes (mem db') (wp + sizeof_Entry) (length ?sk) = ?sk"
  proof -
    have "load_bytes (mem db') (wp + sizeof_Entry) (length ?sk)
            = load_bytes m6 (wp + sizeof_Entry) (length ?sk)"
      using wp1 bo by (intro load_bytes_eqI mem') simp
    then show ?thesis by (simp add: f_key)
  qed
  have g_val: "load_bytes (mem db') (wp + sizeof_Entry + length ?sk) (length ?sv) = ?sv"
  proof -
    have "load_bytes (mem db') (wp + sizeof_Entry + length ?sk) (length ?sv)
            = load_bytes m6 (wp + sizeof_Entry + length ?sk) (length ?sv)"
      using wp1 bo by (intro load_bytes_eqI mem') simp
    then show ?thesis by (simp add: f_val)
  qed
  have old: "entries_ok (mem db') (unat (write_pos db')) es"
  proof (rule entries_ok_frame[OF eok])
    show "mem db' x = mem db x" if "DATA_OFF \<le> x" "x < wp" for x
      using that bo slot2 by (simp add: mem' m6_old)
    show "wp \<le> unat (write_pos db')"
      by (simp add: wpos)
  qed
  have ents: "entries_ok (mem db') (unat (write_pos db')) ((wp, ?sk, ?sv) # es)"
    using wp1 tot old g_klen g_vlen g_next g_key g_val by (simp add: wpos b_def)
  have hd': "load32 (mem db') (BUCKET_OFF + 4 * c) = of_nat (head_of ((wp, ?sk, ?sv) # es) c)"
    if c: "c < BUCKET_COUNT" for c
  proof (cases "c = b")
    case True
    have "load32 (mem db') slot = load32 m6 slot"
      using slot1 by (intro load32_eqI mem') simp
    with True f_slot show ?thesis by (simp add: slot_def b_def)
  next
    case False
    have le: "BUCKET_OFF + 4 * c + 4 \<le> DATA_OFF"
      using c by (simp add: DATA_OFF_def BUCKET_COUNT_def)
    have "load32 (mem db') (BUCKET_OFF + 4 * c) = load32 (mem db) (BUCKET_OFF + 4 * c)"
    proof (rule load32_eqI)
      fix x assume x: "BUCKET_OFF + 4 * c \<le> x" "x < BUCKET_OFF + 4 * c + 4"
      with False have "x < slot \<or> slot + 4 \<le> x"
        unfolding slot_def by arith
      moreover from x le wp1 have "x < wp" "BUCKET_OFF \<le> x"
        by simp_all
      ultimately show "mem db' x = mem db x"
        by (simp add: mem' m6_old)
    qed
    with False show ?thesis by (simp add: heads[OF c] b_def)
  qed
  have bl_db1: "bloom_maybe db' k l = bloom_maybe db1 k l" for k l
    by (rule bloom_maybe_cong) (simp_all add: db'_def)
  have bl_new: "bloom_maybe db' ?sk (length ?sk)"
    by (simp add: bl_db1 db1_def bloom_maybe_add_same)
  have bl_old: "bloom_maybe db' (fst (snd e)) (length (fst (snd e)))" if "e \<in> set es" for e
  proof -
    have "bloom_maybe (db\<lparr>mem := m6\<rparr>) k l = bloom_maybe db k l" for k l
      using bl wp1 bo slot1 by (intro bloom_maybe_cong) (simp_all add: m6_old BLOOM_OFF_def)
    with blm[OF that] show ?thesis
      by (simp add: bl_db1 db1_def bloom_maybe_add_mono)
  qed
  have "kvm_inv db' ((wp, ?sk, ?sv) # es)"
    unfolding kvm_inv_def
    using ms bl bu wp1 wp2 fits ents hd' bl_new bl_old
    by (auto simp add: fields' bloom' wpos wp_def)
  with put wpos show ?thesis
    by (auto simp add: wp_def db'_def)
qed

section \<open>A freshly opened handle\<close>

lemma kvm_open_inv:
  assumes "kvm_open c mm ml = Inr db"
  shows "kvm_inv db []"
proof -
  from assms obtain m where db: "db = \<lparr>mem = memset m 0 0 DATA_OFF, mem_size = of_nat POOL_SIZE,
      bloom = BLOOM_OFF, buckets = BUCKET_OFF, write_pos = of_nat DATA_OFF, count = 0\<rparr>"
    by (auto simp add: kvm_open_def split: if_splits option.splits)
  have wp: "unat (of_nat DATA_OFF :: size_t) = DATA_OFF"
    by (simp add: DATA_OFF_val unat_of_nat)
  have "load32 (memset m 0 0 DATA_OFF) (BUCKET_OFF + 4 * b) = 0" if "b < BUCKET_COUNT" for b
  proof -
    have "BUCKET_OFF + 4 * b + 4 \<le> DATA_OFF"
      using that by (simp add: DATA_OFF_def BUCKET_COUNT_def)
    then show ?thesis
      by (simp add: load32_def memset_def)
  qed
  then show ?thesis
    by (simp add: kvm_inv_def db wp DATA_OFF_val)
qed

text \<open>A handle is returned only when the handle's block and a region were allocated.\<close>

lemma kvm_open_returns:
  "kvm_open c mm ml = Inr db \<Longrightarrow> c \<and> (mm \<noteq> None \<or> ml \<noteq> None)"
  by (auto simp add: kvm_open_def split: if_splits option.splits)

section \<open>Lookup on a region that satisfies the invariant\<close>

lemma chain_walk_entries:
  assumes "entries_ok (mem db) wp es" and "wp \<le> POOL_SIZE" and "length sk < 2 ^ 32"
    and "take (length sk) key = sk"
  shows "chain_walk db key (of_nat (length sk)) (of_nat (head_of es (bucket_of sk)))
           = Some (lookup es sk, db)"
  using assms(1)
proof (induction es)
  case Nil
  show ?case
    by (subst chain_walk.simps) (simp add: DATA_OFF_val)
next
  case (Cons e es)
  obtain off k v where e: "e = (off, k, v)" by (cases e)
  from Cons.prems e have
    b: "DATA_OFF \<le> off" "off + sizeof_Entry + length k + length v \<le> wp" and
    fk: "load32 (mem db) off = of_nat (length k)" and
    fv: "load32 (mem db) (off + 4) = of_nat (length v)" and
    fn: "load32 (mem db) (off + 8) = of_nat (head_of es (bucket_of k))" and
    bk: "load_bytes (mem db) (off + sizeof_Entry) (length k) = k" and
    bv: "load_bytes (mem db) (off + sizeof_Entry + length k) (length v) = v" and
    rest: "entries_ok (mem db) wp es" by simp_all
  have small: "off < 2 ^ 32" "length k < 2 ^ 32" "length v < 2 ^ 32"
    using b assms(2) by (simp_all add: DATA_OFF_val)
  have uo: "unat (of_nat off :: u32) = off" and uk: "unat (of_nat (length k) :: u32) = length k"
    and uv: "unat (of_nat (length v) :: u32) = length v"
    and us: "unat (of_nat (length sk) :: u32) = length sk"
    using small assms(3) by (simp_all add: unat_of_nat)
  have leneq: "(of_nat (length k) :: u32) = of_nat (length sk) \<longleftrightarrow> length k = length sk"
    using uk us by metis
  show ?case
  proof (cases "bucket_of k = bucket_of sk")
    case False
    then have "k \<noteq> sk" by auto
    with False Cons.IH[OF rest] show ?thesis by (simp add: e)
  next
    case True
    show ?thesis
    proof (cases "k = sk")
      case same: True
      have "memcmp_eq (mem db) (off + sizeof_Entry) key (length sk)"
        using bk same assms(4) by (simp add: memcmp_eq_def)
      with same True b bv uk uv show ?thesis
        by (subst chain_walk.simps) (simp add: e uo fk fv)
    next
      case False
      have "\<not> (length k = length sk \<and> memcmp_eq (mem db) (off + sizeof_Entry) key (length sk))"
        using bk False assms(4) by (auto simp add: memcmp_eq_def)
      with False True b Cons.IH[OF rest] show ?thesis
        by (subst chain_walk.simps) (auto simp add: e uo us fk fn leneq)
    qed
  qed
qed

lemma take_length_prefix: "take (length (take n s)) s = take n s"
  by (cases "n \<le> length s") (simp_all add: min_def)

lemma lookup_bloom:
  "\<forall>e \<in> set es. bloom_maybe db (fst (snd e)) (length (fst (snd e))) \<Longrightarrow>
   \<not> bloom_maybe db sk (length sk) \<Longrightarrow> lookup es sk = None"
  by (induction es) auto

lemma kvm_get_inv:
  assumes "kvm_inv db es"
  shows "kvm_get db key = Some (lookup es (stored key), db)"
proof -
  from assms have eok: "entries_ok (mem db) (unat (write_pos db)) es"
    and wp: "unat (write_pos db) \<le> POOL_SIZE" and bu: "buckets db = BUCKET_OFF"
    and heads: "\<And>b. b < BUCKET_COUNT \<Longrightarrow> load32 (mem db) (BUCKET_OFF + 4 * b) = of_nat (head_of es b)"
    and blm: "\<forall>e \<in> set es. bloom_maybe db (fst (snd e)) (length (fst (snd e)))"
    by (simp_all add: kvm_inv_def)
  show ?thesis
  proof (cases "bloom_maybe db (stored key) (length (stored key))")
    case False
    with lookup_bloom[OF blm] show ?thesis
      by (simp add: kvm_get_def Let_def bloom_maybe_stored)
  next
    case True
    have "take (length (stored key)) key = stored key"
      unfolding stored_def by (rule take_length_prefix)
    from chain_walk_entries[OF eok wp length_stored_lt this] True show ?thesis
      unfolding kvm_get_def Let_def bloom_maybe_stored bucket_stored bu
      by (simp add: heads[OF bucket_of_less] of_nat_length_stored)
  qed
qed

section \<open>Open handles and sequences of calls\<close>

lemma kvm_put_cases:
  assumes "kvm_inv db es"
  obtains (full) "kvm_put db key val = (- 1, db)"
      "POOL_SIZE < unat (write_pos db) + reserved (length (stored key)) (length (stored val))"
    | (fits) db' where "kvm_put db key val = (0, db')"
      "kvm_inv db' ((unat (write_pos db), stored key, stored val) # es)"
      "unat (write_pos db') = unat (write_pos db) + reserved (length (stored key)) (length (stored val))"
      "count db' = count db + 1"
proof (cases "POOL_SIZE < unat (write_pos db) + reserved (length (stored key)) (length (stored val))")
  case True
  with kvm_put_full[OF assms True] full show ?thesis by blast
next
  case False
  then have "unat (write_pos db) + reserved (length (stored key)) (length (stored val)) \<le> POOL_SIZE"
    by simp
  from kvm_put_fits[OF assms this] fits show ?thesis by blast
qed

lemma reachable_inv: "reachable db \<Longrightarrow> \<exists>es. kvm_inv db es"
proof (induction rule: reachable.induct)
  case (opened c mm ml db)
  then show ?case using kvm_open_inv by blast
next
  case (put db k v rc db')
  then obtain es where inv: "kvm_inv db es" by blast
  from inv show ?case
  proof (cases rule: kvm_put_cases[where key = k and val = v])
    case full
    with put.hyps inv show ?thesis by auto
  next
    case (fits db'')
    with put.hyps show ?thesis by auto
  qed
next
  case (got db k r db')
  then obtain es where inv: "kvm_inv db es" by blast
  with got.hyps kvm_get_inv[OF inv, of k] show ?case by auto
qed

lemma lookup_map_of: "lookup es sk = map_of (map snd es) sk"
  by (induction es) auto

lemma lookup_append:
  "lookup (es' @ es) sk = (case lookup es' sk of None \<Rightarrow> lookup es sk | Some v \<Rightarrow> Some v)"
  by (induction es') auto

lemma lookup_None: "sk \<notin> fst ` snd ` set es \<Longrightarrow> lookup es sk = None"
  by (induction es) auto

lemma exec_inv:
  assumes "kvm_inv db es"
  shows "\<exists>db' es'. exec db ops = Some db' \<and> kvm_inv db' (es' @ es) \<and>
           fst ` snd ` set es' \<subseteq> stored ` put_keys ops \<and>
           unat (write_pos db) \<le> unat (write_pos db')"
  using assms
proof (induction ops arbitrary: db es)
  case Nil
  then show ?case by (intro exI[of _ db] exI[of _ "[]"]) simp
next
  case (Cons a ops)
  show ?case
  proof (cases a)
    case (Get k)
    from Cons.IH[OF Cons.prems] obtain db' es' where
      "exec db ops = Some db'" "kvm_inv db' (es' @ es)"
      "fst ` snd ` set es' \<subseteq> stored ` put_keys ops" "unat (write_pos db) \<le> unat (write_pos db')"
      by blast
    with Get kvm_get_inv[OF Cons.prems, of k] show ?thesis
      by (intro exI[of _ db'] exI[of _ es']) simp
  next
    case (Put k v)
    from Cons.prems show ?thesis
    proof (cases rule: kvm_put_cases[where key = k and val = v])
      case full
      from Cons.IH[OF Cons.prems] obtain db' es' where
        "exec db ops = Some db'" "kvm_inv db' (es' @ es)"
        "fst ` snd ` set es' \<subseteq> stored ` put_keys ops" "unat (write_pos db) \<le> unat (write_pos db')"
        by blast
      with Put full show ?thesis
        by (intro exI[of _ db'] exI[of _ es']) auto
    next
      case (fits db1)
      let ?e = "(unat (write_pos db), stored k, stored v)"
      from Cons.IH[OF fits(2)] obtain db' es' where
        "exec db1 ops = Some db'" "kvm_inv db' (es' @ ?e # es)"
        "fst ` snd ` set es' \<subseteq> stored ` put_keys ops" "unat (write_pos db1) \<le> unat (write_pos db')"
        by blast
      with Put fits show ?thesis
        by (intro exI[of _ db'] exI[of _ "es' @ [?e]"]) auto
    qed
  qed
qed

lemma put_all_inv:
  assumes "kvm_inv db es" and "put_all db kvs = Some db'"
  shows "\<exists>es'. kvm_inv db' (es' @ es) \<and> map snd es' = rev (map (\<lambda>(k, v). (stored k, stored v)) kvs)"
  using assms
proof (induction kvs arbitrary: db es)
  case Nil
  then show ?case by simp
next
  case (Cons kv kvs)
  obtain k v where kv: "kv = (k, v)" by (cases kv)
  from Cons.prems(1) show ?case
  proof (cases rule: kvm_put_cases[where key = k and val = v])
    case full
    with Cons.prems(2) kv show ?thesis by simp
  next
    case (fits db1)
    let ?e = "(unat (write_pos db), stored k, stored v)"
    from fits(1) Cons.prems(2) kv have "put_all db1 kvs = Some db'" by simp
    from Cons.IH[OF fits(2) this] obtain es' where
      "kvm_inv db' (es' @ ?e # es)" "map snd es' = rev (map (\<lambda>(k, v). (stored k, stored v)) kvs)"
      by blast
    then show ?thesis
      by (intro exI[of _ "es' @ [?e]"]) (simp add: kv)
  qed
qed

lemma exec_reachable: "reachable db \<Longrightarrow> exec db ops = Some db' \<Longrightarrow> reachable db'"
proof (induction ops arbitrary: db)
  case Nil
  then show ?case by simp
next
  case (Cons a ops)
  show ?case
  proof (cases a)
    case (Put k v)
    have "reachable (snd (kvm_put db k v))"
      by (rule reachable.put[OF Cons.prems(1)]) (rule surjective_pairing)
    with Cons.IH Cons.prems(2) Put show ?thesis by simp
  next
    case (Get k)
    with Cons.prems(2) obtain r db1 where g: "kvm_get db k = Some (r, db1)" and e: "exec db1 ops = Some db'"
      by (auto split: option.splits)
    from reachable.got[OF Cons.prems(1) g] Cons.IH e show ?thesis by blast
  qed
qed

lemma reachable_mem_size: "reachable db \<Longrightarrow> unat (mem_size db) = POOL_SIZE"
proof -
  assume "reachable db"
  then obtain es where "kvm_inv db es" using reachable_inv by blast
  then show ?thesis by (simp add: kvm_inv_def DATA_OFF_val unat_of_nat)
qed

lemma put_then_get:
  assumes "kvm_inv db es"
    and "unat (write_pos db) + reserved (length (stored key)) (length (stored val)) \<le> POOL_SIZE"
  shows "\<exists>db'. kvm_put db key val = (0, db') \<and> kvm_get db' key = Some (Some (stored val), db')"
proof -
  from kvm_put_fits[OF assms] obtain db' where
    put: "kvm_put db key val = (0, db')" and
    inv': "kvm_inv db' ((unat (write_pos db), stored key, stored val) # es)"
    by blast
  from kvm_get_inv[OF inv', of key] have "kvm_get db' key = Some (Some (stored val), db')"
    by simp
  with put show ?thesis by blast
qed

lemma stored_strlen:
  assumes "strlen s < 2 ^ 32"
  shows "length (stored s) = strlen s" and "stored s = take (strlen s) s"
    and "stored s = takeWhile (\<lambda>c. c \<noteq> 0) s"
proof -
  from assms have u: "unat (of_nat (strlen s) :: u32) = strlen s"
    by (simp add: unat_of_nat)
  show "length (stored s) = strlen s"
    by (simp only: length_stored u)
  show "stored s = take (strlen s) s"
    by (simp only: stored_def u)
  then show "stored s = takeWhile (\<lambda>c. c \<noteq> 0) s"
    by (simp only: take_strlen)
qed

lemma kvm_put_success:
  assumes "kvm_inv db es" and "kvm_put db key val = (0, db')"
  shows "kvm_inv db' ((unat (write_pos db), stored key, stored val) # es)"
    and "unat (write_pos db') = unat (write_pos db) + reserved (length (stored key)) (length (stored val))"
    and "count db' = count db + 1"
  using assms(1)
  by (cases rule: kvm_put_cases[where key = key and val = val]; use assms(2) in simp)+

lemma fits_strlen:
  assumes "n + reserved (strlen k) (strlen v) \<le> POOL_SIZE"
  shows "strlen k < 2 ^ 32" and "strlen v < 2 ^ 32"
  using assms reserved_bounds(1)[of "strlen k" "strlen v"] by (simp_all add: DATA_OFF_val)

section \<open>The guard and the layout of an insertion\<close>

text \<open>
  On the lengths that the call measures, the guard of \<^verbatim>\<open>kvm_put\<close> rejects exactly the
  entries that do not fit, and an accepted entry lies at the old cursor.
\<close>

lemma kvm_put_rejects:
  assumes "reachable db"
    and "unat (mem_size db) < unat (write_pos db) + reserved (len32 key) (len32 val)"
  shows "kvm_put db key val = (- 1, db)"
proof -
  from assms(1) obtain es where inv: "kvm_inv db es"
    using reachable_inv by blast
  from assms have "POOL_SIZE < unat (write_pos db) + reserved (length (stored key)) (length (stored val))"
    by (simp add: reachable_mem_size length_stored)
  from kvm_put_full[OF inv this] show ?thesis .
qed

lemma kvm_put_entry_layout:
  assumes "reachable db" and "kvm_put db key val = (0, db')"
  shows "unat (write_pos db') = unat (write_pos db) + round_up8 (sizeof_Entry + len32 key + len32 val) \<and>
         load32 (mem db') (unat (write_pos db)) = of_nat (len32 key) \<and>
         load32 (mem db') (unat (write_pos db) + 4) = of_nat (len32 val) \<and>
         load32 (mem db') (unat (write_pos db) + 8)
           = load32 (mem db) (buckets db + 4 * unat (fnv1a key (len32 key) mod of_nat BUCKET_COUNT)) \<and>
         load_bytes (mem db') (unat (write_pos db) + sizeof_Entry) (len32 key) = take (len32 key) key \<and>
         load_bytes (mem db') (unat (write_pos db) + sizeof_Entry + len32 key) (len32 val)
           = take (len32 val) val"
proof -
  from assms(1) obtain es where inv: "kvm_inv db es"
    using reachable_inv by blast
  note s = kvm_put_success[OF inv assms(2)]
  from s(1) have "entries_ok (mem db') (unat (write_pos db')) ((unat (write_pos db), stored key, stored val) # es)"
    by (simp add: kvm_inv_def)
  moreover from inv have "load32 (mem db) (buckets db + 4 * bucket_of (stored key))
      = of_nat (head_of es (bucket_of (stored key)))"
    by (simp add: kvm_inv_def bucket_of_less)
  ultimately have g:
    "unat (write_pos db')
       = unat (write_pos db) + round_up8 (sizeof_Entry + length (stored key) + length (stored val)) \<and>
     load32 (mem db') (unat (write_pos db)) = of_nat (length (stored key)) \<and>
     load32 (mem db') (unat (write_pos db) + 4) = of_nat (length (stored val)) \<and>
     load32 (mem db') (unat (write_pos db) + 8)
       = load32 (mem db) (buckets db + 4 * bucket_of (stored key)) \<and>
     load_bytes (mem db') (unat (write_pos db) + sizeof_Entry) (length (stored key)) = stored key \<and>
     load_bytes (mem db') (unat (write_pos db) + sizeof_Entry + length (stored key)) (length (stored val))
       = stored val"
    using s(2) by (simp add: reserved_def)
  from g[unfolded length_stored bucket_stored[symmetric], unfolded stored_def] show ?thesis .
qed

text \<open>Texts of 4 GiB and more, as the call measures and keeps them.\<close>

lemma strlen_replicate: "c \<noteq> 0 \<Longrightarrow> strlen (replicate n c) = n"
  by (simp add: strlen_no_zero)

lemma stored_empty: "stored [] = []"
  by (simp add: stored_def)

lemma stored_wrapped: "stored (replicate 4294967296 (65 :: u8)) = []"
proof -
  have "strlen (replicate 4294967296 (65 :: u8)) = 4294967296"
    by (rule strlen_replicate) simp
  then show ?thesis
    by (simp add: stored_def)
qed

lemma stored_wrapped1: "stored (replicate 4294967297 (65 :: u8)) = [65]"
proof -
  have "strlen (replicate 4294967297 (65 :: u8)) = 4294967297"
    by (rule strlen_replicate) simp
  then have "len32 (replicate 4294967297 (65 :: u8)) = 1"
    by simp
  then show ?thesis
    by (simp add: stored_def)
qed

section \<open>The handle of the examples\<close>

lemma kvm_open_fresh: "kvm_open True (Some (\<lambda>_. 0)) None = Inr fresh"
  by (simp add: fresh_def kvm_open_def)

lemma reachable_fresh: "reachable fresh"
  by (rule reachable.opened) (rule kvm_open_fresh)

lemma fresh_fields:
  "unat (write_pos fresh) = 163840" "unat (mem_size fresh) = 67108864"
  by (simp_all add: fresh_def kvm_open_def DATA_OFF_val)

section \<open>The claims\<close>

text \<open>
  C1, as the code has it. On an open handle with room for the entry, for every key and for
  every value without a zero byte, the insertion succeeds and a lookup of the key right
  after it returns the value.
\<close>

theorem put_get_roundtrip:
  assumes "reachable db" and "0 \<notin> set val"
    and "unat (write_pos db) + reserved (strlen key) (length val) \<le> unat (mem_size db)"
  shows "\<exists>db'. kvm_put db key val = (0, db') \<and> kvm_get db' key = Some (Some val, db')"
proof -
  from assms(1) obtain es where inv: "kvm_inv db es"
    using reachable_inv by blast
  from assms(2) have sv: "strlen val = length val"
    by (rule strlen_no_zero)
  from assms(1,3) have fits: "unat (write_pos db) + reserved (strlen key) (strlen val) \<le> POOL_SIZE"
    by (simp add: reachable_mem_size sv)
  note b = fits_strlen[OF fits]
  from b(2) have "stored val = take (strlen val) val"
    by (rule stored_strlen(2))
  then have st: "stored val = val"
    by (simp add: sv)
  from fits have "unat (write_pos db) + reserved (length (stored key)) (length (stored val)) \<le> POOL_SIZE"
    by (simp only: stored_strlen(1)[OF b(1)] stored_strlen(1)[OF b(2)])
  from put_then_get[OF inv this] show ?thesis
    by (simp add: st)
qed

theorem put_get_roundtrip_witness:
  "\<exists>db'. kvm_put fresh [107, 0, 49] [118, 97, 108] = (0, db') \<and>
     kvm_get db' [107, 0, 49] = Some (Some [118, 97, 108], db')"
proof -
  have l: "strlen [107, 0, 49 :: u8] = 1"
    by simp
  have "unat (write_pos fresh) + reserved (strlen [107, 0, 49 :: u8]) (length [118, 97, 108 :: u8])
          \<le> unat (mem_size fresh)"
    by (simp add: fresh_fields reserved_def round_up8_def sizeof_Entry_def)
  from put_get_roundtrip[OF reachable_fresh _ this] show ?thesis
    by simp
qed

text \<open>
  C1 as stated fails on a value with a zero byte in it: with room for the whole entry, the
  insertion of the value \<open>[118, 0, 49]\<close> succeeds and the lookup right after it returns
  \<open>[118]\<close>.
\<close>

theorem roundtrip_value_cut:
  "unat (write_pos fresh) + reserved (length [107, 49 :: u8]) (length [118, 0, 49 :: u8])
     \<le> unat (mem_size fresh) \<and>
   kvm_put fresh [107, 49] [118, 0, 49] = (0, snd (kvm_put fresh [107, 49] [118, 0, 49])) \<and>
   kvm_get (snd (kvm_put fresh [107, 49] [118, 0, 49])) [107, 49]
     = Some (Some [118], snd (kvm_put fresh [107, 49] [118, 0, 49])) \<and>
   kvm_get (snd (kvm_put fresh [107, 49] [118, 0, 49])) [107, 49]
     \<noteq> Some (Some [118, 0, 49], snd (kvm_put fresh [107, 49] [118, 0, 49]))"
proof -
  obtain es where inv: "kvm_inv fresh es"
    using reachable_inv[OF reachable_fresh] by blast
  have st: "stored [107, 49 :: u8] = [107, 49]" "stored [118, 0, 49 :: u8] = [118]"
    by (simp_all add: stored_def)
  have "unat (write_pos fresh) + reserved (length (stored [107, 49 :: u8])) (length (stored [118, 0, 49 :: u8]))
          \<le> POOL_SIZE"
    by (simp add: st fresh_fields reserved_def round_up8_def sizeof_Entry_def DATA_OFF_val)
  from put_then_get[OF inv this] show ?thesis
    by (auto simp add: st fresh_fields reserved_def round_up8_def sizeof_Entry_def)
qed

text \<open>
  C2. An insertion that needs more bytes than remain is to return \<open>-1\<close> and leave the handle
  as it was. The code measures the key with \<^verbatim>\<open>strlen\<close> and keeps the result in 32 bits:
  a key of \<open>2 ^ 32\<close> bytes, which needs over 4 GiB of the 64 MiB region, is measured as
  empty, the guard passes, the call returns \<open>0\<close> and the cursor moves by 16 bytes.
\<close>

theorem put_accepts_oversized_key:
  "unat (mem_size fresh) < unat (write_pos fresh) + reserved (strlen (replicate 4294967296 (65 :: u8))) (strlen []) \<and>
   kvm_put fresh (replicate 4294967296 65) [] = (0, snd (kvm_put fresh (replicate 4294967296 65) [])) \<and>
   unat (write_pos (snd (kvm_put fresh (replicate 4294967296 65) []))) = unat (write_pos fresh) + 16 \<and>
   count (snd (kvm_put fresh (replicate 4294967296 65) [])) = count fresh + 1"
proof -
  obtain es where inv: "kvm_inv fresh es"
    using reachable_inv[OF reachable_fresh] by blast
  note st = stored_wrapped stored_empty
  have "unat (write_pos fresh) + reserved (length (stored (replicate 4294967296 (65 :: u8)))) (length (stored ([] :: bytes)))
          \<le> POOL_SIZE"
    by (simp add: st fresh_fields reserved_def round_up8_def sizeof_Entry_def DATA_OFF_val)
  from kvm_put_fits[OF inv this] obtain db' where
    "kvm_put fresh (replicate 4294967296 65) [] = (0, db')" and
    "unat (write_pos db') = unat (write_pos fresh) + reserved (length (stored (replicate 4294967296 (65 :: u8)))) (length (stored ([] :: bytes)))" and
    "count db' = count fresh + 1"
    by blast
  moreover have "strlen (replicate 4294967296 (65 :: u8)) = 4294967296"
    by (rule strlen_replicate) simp
  ultimately show ?thesis
    by (simp add: st fresh_fields reserved_def round_up8_def sizeof_Entry_def)
qed

text \<open>
  C3, as the code has it. Duplicate keys are allowed and the newest wins: after a run of
  successful insertions of texts (keys and values without a zero byte, of lengths that fit
  the 32-bit length fields of an entry) on an open handle, a lookup returns the value of
  the last insertion whose key is the one looked up.
\<close>

theorem get_last_put:
  assumes "reachable db" and "put_all db kvs = Some db'"
    and "\<forall>(k, v) \<in> set kvs. c_string k \<and> c_string v"
    and "map_of (rev kvs) key = Some val"
  shows "kvm_get db' key = Some (Some val, db')"
proof -
  from assms(1) obtain es where inv: "kvm_inv db es"
    using reachable_inv by blast
  from put_all_inv[OF inv assms(2)] obtain es' where
    inv': "kvm_inv db' (es' @ es)" and
    es': "map snd es' = rev (map (\<lambda>(k, v). (stored k, stored v)) kvs)"
    by blast
  from assms(3) have "map (\<lambda>(k, v). (stored k, stored v)) kvs = kvs"
    by (intro map_idI) (auto simp add: stored_c_string)
  with es' have "lookup es' key = map_of (rev kvs) key"
    by (simp add: lookup_map_of)
  moreover from map_of_SomeD[OF assms(4)] have "(key, val) \<in> set kvs"
    by simp
  with assms(3) have "stored key = key"
    by (auto simp add: stored_c_string)
  ultimately show ?thesis
    using kvm_get_inv[OF inv', of key] assms(4) by (simp add: lookup_append)
qed

theorem get_last_put_witness:
  "\<exists>db'. put_all fresh [([97], [49]), ([97], [50])] = Some db' \<and>
     kvm_get db' [97] = Some (Some [50], db')"
proof -
  obtain es where inv: "kvm_inv fresh es"
    using reachable_inv[OF reachable_fresh] by blast
  have st: "stored [97 :: u8] = [97]" "stored [49 :: u8] = [49]" "stored [50 :: u8] = [50]"
    by (simp_all add: stored_def)
  have "unat (write_pos fresh) + reserved (length (stored [97 :: u8])) (length (stored [49 :: u8])) \<le> POOL_SIZE"
    by (simp add: st fresh_fields reserved_def round_up8_def sizeof_Entry_def DATA_OFF_val)
  from kvm_put_fits[OF inv this] obtain db1 where
    p1: "kvm_put fresh [97] [49] = (0, db1)" and
    inv1: "kvm_inv db1 ((unat (write_pos fresh), stored [97], stored [49]) # es)" and
    wp1: "unat (write_pos db1) = unat (write_pos fresh) + reserved (length (stored [97 :: u8])) (length (stored [49 :: u8]))"
    by blast
  have "unat (write_pos db1) + reserved (length (stored [97 :: u8])) (length (stored [50 :: u8])) \<le> POOL_SIZE"
    by (simp add: wp1 st fresh_fields reserved_def round_up8_def sizeof_Entry_def DATA_OFF_val)
  from kvm_put_fits[OF inv1 this] obtain db2 where p2: "kvm_put db1 [97] [50] = (0, db2)"
    by blast
  from p1 p2 have run: "put_all fresh [([97], [49]), ([97], [50])] = Some db2"
    by simp
  have "kvm_get db2 [97] = Some (Some [50], db2)"
    by (rule get_last_put[OF reachable_fresh run]) (simp_all add: c_string_def)
  with run show ?thesis by blast
qed

text \<open>
  C3 as stated fails on a value with a zero byte in it: after the successful insertions of
  \<open>a/1\<close> and then of \<open>a\<close> with the value \<open>[50, 0, 51]\<close>, the lookup of \<open>a\<close> returns
  \<open>[50]\<close>, which is not the value of the last insertion.
\<close>

theorem last_put_value_cut:
  "put_all fresh [([97], [49]), ([97], [50, 0, 51])]
     = Some (the (put_all fresh [([97], [49]), ([97], [50, 0, 51])])) \<and>
   map_of (rev [([97 :: u8], [49 :: u8]), ([97], [50, 0, 51])]) [97] = Some [50, 0, 51] \<and>
   kvm_get (the (put_all fresh [([97], [49]), ([97], [50, 0, 51])])) [97]
     = Some (Some [50], the (put_all fresh [([97], [49]), ([97], [50, 0, 51])]))"
proof -
  obtain es where inv: "kvm_inv fresh es"
    using reachable_inv[OF reachable_fresh] by blast
  have st: "stored [97 :: u8] = [97]" "stored [49 :: u8] = [49]" "stored [50, 0, 51 :: u8] = [50]"
    by (simp_all add: stored_def)
  have "unat (write_pos fresh) + reserved (length (stored [97 :: u8])) (length (stored [49 :: u8])) \<le> POOL_SIZE"
    by (simp add: st fresh_fields reserved_def round_up8_def sizeof_Entry_def DATA_OFF_val)
  from kvm_put_fits[OF inv this] obtain db1 where
    p1: "kvm_put fresh [97] [49] = (0, db1)" and
    inv1: "kvm_inv db1 ((unat (write_pos fresh), stored [97], stored [49]) # es)" and
    wp1: "unat (write_pos db1) = unat (write_pos fresh) + reserved (length (stored [97 :: u8])) (length (stored [49 :: u8]))"
    by blast
  have "unat (write_pos db1) + reserved (length (stored [97 :: u8])) (length (stored [50, 0, 51 :: u8])) \<le> POOL_SIZE"
    by (simp add: wp1 st fresh_fields reserved_def round_up8_def sizeof_Entry_def DATA_OFF_val)
  from put_then_get[OF inv1 this] obtain db2 where
    p2: "kvm_put db1 [97] [50, 0, 51] = (0, db2)" and
    g: "kvm_get db2 [97] = Some (Some (stored [50, 0, 51]), db2)"
    by blast
  from p1 p2 have "put_all fresh [([97], [49]), ([97], [50, 0, 51])] = Some db2"
    by simp
  with g show ?thesis
    by (simp add: st)
qed

text \<open>
  C4. The Bloom filter has no false negative: once an insertion of a key has succeeded on
  an open handle, the filter test that \<^verbatim>\<open>kvm_get\<close> makes for that key is true after
  any further calls, so the lookup goes on to the chain walk.
\<close>

theorem bloom_no_false_negative:
  assumes "reachable db" and "kvm_put db key val = (0, db1)" and "exec db1 ops = Some db2"
  shows "bloom_maybe db2 key (len32 key) \<and>
         kvm_get db2 key =
           chain_walk db2 key (of_nat (strlen key))
             (load32 (mem db2)
                (buckets db2 + 4 * unat (fnv1a key (len32 key) mod of_nat BUCKET_COUNT)))"
proof -
  from assms(1) obtain es where inv: "kvm_inv db es"
    using reachable_inv by blast
  let ?e = "(unat (write_pos db), stored key, stored val)"
  from exec_inv[OF kvm_put_success(1)[OF inv assms(2)], of ops] assms(3)
  obtain es' where "kvm_inv db2 (es' @ ?e # es)"
    by auto
  then have "bloom_maybe db2 (fst (snd ?e)) (length (fst (snd ?e)))"
    by (simp add: kvm_inv_def)
  then have b: "bloom_maybe db2 key (unat (of_nat (strlen key) :: u32))"
    by (simp add: bloom_maybe_stored)
  then show ?thesis
    by (simp add: kvm_get_def Let_def)
qed

theorem bloom_no_false_negative_witness:
  "\<exists>db2. exec (snd (kvm_put fresh [107] [118])) [Put [120] [121], Get [107], Get [122]] = Some db2 \<and>
     bloom_maybe db2 [107] 1"
proof -
  let ?db1 = "snd (kvm_put fresh [107] [118])"
  have "fst (kvm_put fresh [107] [118]) = 0"
    by (simp add: kvm_put_def Let_def entry_size_def sizeof_Entry_def fresh_def kvm_open_def
        DATA_OFF_val)
  then have p: "kvm_put fresh [107] [118] = (0, ?db1)"
    by (simp add: prod_eq_iff)
  have "reachable ?db1"
    by (rule reachable.put[OF reachable_fresh p])
  then obtain es where "kvm_inv ?db1 es"
    using reachable_inv by blast
  from exec_inv[OF this, of "[Put [120] [121], Get [107], Get [122]]"]
  obtain db2 where e: "exec ?db1 [Put [120] [121], Get [107], Get [122]] = Some db2"
    by blast
  from bloom_no_false_negative[OF reachable_fresh p e] have "bloom_maybe db2 [107] 1"
    by simp
  with e show ?thesis by blast
qed

text \<open>
  C5, as the code has it. A text that no call of \<^verbatim>\<open>kvm_put\<close> on the handle was given
  as key is absent: whatever the calls since \<^verbatim>\<open>kvm_open\<close> were, and whatever the
  Bloom filter answers for it, the lookup returns \<^verbatim>\<open>NULL\<close>. Keys are texts: without a
  zero byte, of lengths that fit the 32-bit length field of an entry.
\<close>

theorem get_absent_never_put:
  assumes "kvm_open c mm ml = Inr db0" and "exec db0 ops = Some db"
    and "c_string key" and "\<forall>k \<in> put_keys ops. c_string k" and "key \<notin> put_keys ops"
  shows "kvm_get db key = Some (None, db)"
proof -
  from exec_inv[OF kvm_open_inv[OF assms(1)], of ops] assms(2)
  obtain es' where inv: "kvm_inv db es'" and keys: "fst ` snd ` set es' \<subseteq> stored ` put_keys ops"
    by auto
  from assms(4) have "stored ` put_keys ops = put_keys ops"
    by (auto simp add: stored_c_string image_iff)
  with keys assms(3,5) have "stored key \<notin> fst ` snd ` set es'"
    by (auto simp add: stored_c_string)
  from lookup_None[OF this] kvm_get_inv[OF inv, of key] show ?thesis
    by simp
qed

theorem get_absent_never_put_witness:
  "\<exists>db. exec fresh [Put [98, 107, 105, 109, 113] [49], Put [121, 102, 105, 118] [50], Put [66, 66] [51]]
         = Some db \<and>
     bloom_maybe db [65, 97] (len32 [65, 97]) \<and>
     kvm_get db [65, 97] = Some (None, db)"
proof -
  let ?k1 = "[98, 107, 105, 109, 113] :: bytes" and ?k2 = "[121, 102, 105, 118] :: bytes"
    and ?k3 = "[66, 66] :: bytes"
  let ?ops = "[Put ?k1 [49], Put ?k2 [50], Put ?k3 [51]]"
  obtain es where inv: "kvm_inv fresh es"
    using reachable_inv[OF reachable_fresh] by blast
  have st: "stored ?k1 = ?k1" "stored ?k2 = ?k2" "stored ?k3 = ?k3"
    "stored [49 :: u8] = [49]" "stored [50 :: u8] = [50]" "stored [51 :: u8] = [51]"
    by (simp_all add: stored_def)
  have "unat (write_pos fresh) + reserved (length (stored ?k1)) (length (stored [49 :: u8])) \<le> POOL_SIZE"
    by (simp add: st fresh_fields reserved_def round_up8_def sizeof_Entry_def DATA_OFF_val)
  from kvm_put_fits[OF inv this] obtain db1 where
    p1: "kvm_put fresh ?k1 [49] = (0, db1)" and
    inv1: "kvm_inv db1 ((unat (write_pos fresh), ?k1, [49]) # es)" and
    wp1: "unat (write_pos db1) = 163840 + 24"
    by (auto simp add: st fresh_fields reserved_def round_up8_def sizeof_Entry_def)
  have "unat (write_pos db1) + reserved (length (stored ?k2)) (length (stored [50 :: u8])) \<le> POOL_SIZE"
    by (simp add: wp1 st reserved_def round_up8_def sizeof_Entry_def DATA_OFF_val)
  from kvm_put_fits[OF inv1 this] obtain db2 where
    p2: "kvm_put db1 ?k2 [50] = (0, db2)" and
    inv2: "kvm_inv db2 ((unat (write_pos db1), ?k2, [50]) # (unat (write_pos fresh), ?k1, [49]) # es)" and
    wp2: "unat (write_pos db2) = 163840 + 48"
    by (auto simp add: st wp1 reserved_def round_up8_def sizeof_Entry_def)
  have "unat (write_pos db2) + reserved (length (stored ?k3)) (length (stored [51 :: u8])) \<le> POOL_SIZE"
    by (simp add: wp2 st reserved_def round_up8_def sizeof_Entry_def DATA_OFF_val)
  from kvm_put_fits[OF inv2 this] obtain db3 where
    p3: "kvm_put db2 ?k3 [51] = (0, db3)" and
    inv3: "kvm_inv db3 ((unat (write_pos db2), ?k3, [51]) # (unat (write_pos db1), ?k2, [50])
             # (unat (write_pos fresh), ?k1, [49]) # es)"
    by (auto simp add: st)
  from p1 p2 p3 have run: "exec fresh ?ops = Some db3"
    by simp
  from inv3 have b: "bloom_maybe db3 ?k1 (length ?k1)" "bloom_maybe db3 ?k2 (length ?k2)"
    "bloom_maybe db3 ?k3 (length ?k3)"
    by (simp_all add: kvm_inv_def)
  have e: "fnv1a [65, 97] (length [65, 97 :: u8]) mod of_nat BLOOM_SIZE
             = fnv1a ?k1 (length ?k1) mod of_nat BLOOM_SIZE"
    "hash2 [65, 97] (length [65, 97 :: u8]) mod of_nat BLOOM_SIZE
       = hash2 ?k2 (length ?k2) mod of_nat BLOOM_SIZE"
    "hash3 [65, 97] (length [65, 97 :: u8]) mod of_nat BLOOM_SIZE
       = hash3 ?k3 (length ?k3) mod of_nat BLOOM_SIZE"
    by (simp_all add: fnv1a_def hash2_def hash3_def BLOOM_SIZE_def)
  from b have fp: "bloom_maybe db3 [65, 97] (length [65, 97 :: u8])"
    unfolding bloom_maybe_def Let_def e by blast
  have l: "len32 [65, 97] = length [65, 97 :: u8]"
    by simp
  have "kvm_get db3 [65, 97] = Some (None, db3)"
    by (rule get_absent_never_put[OF kvm_open_fresh run]) (simp_all add: c_string_def)
  with run fp show ?thesis
    unfolding l by blast
qed

text \<open>
  C5 as stated fails on a key with a zero byte in it: after the insertion of the key
  \<open>[97, 0, 98]\<close>, the key \<open>[97]\<close>, which no insertion was given, is found.
\<close>

theorem never_put_key_found:
  "exec fresh [Put [97, 0, 98] [118]] = Some (snd (kvm_put fresh [97, 0, 98] [118])) \<and>
   [97] \<notin> put_keys [Put [97, 0, 98] [118]] \<and>
   kvm_get (snd (kvm_put fresh [97, 0, 98] [118])) [97]
     = Some (Some [118], snd (kvm_put fresh [97, 0, 98] [118]))"
proof -
  obtain es where inv: "kvm_inv fresh es"
    using reachable_inv[OF reachable_fresh] by blast
  have st: "stored [97, 0, 98 :: u8] = [97]" "stored [118 :: u8] = [118]" "stored [97 :: u8] = [97]"
    by (simp_all add: stored_def)
  have "unat (write_pos fresh) + reserved (length (stored [97, 0, 98 :: u8])) (length (stored [118 :: u8])) \<le> POOL_SIZE"
    by (simp add: st fresh_fields reserved_def round_up8_def sizeof_Entry_def DATA_OFF_val)
  from kvm_put_fits[OF inv this] obtain db1 where
    p1: "kvm_put fresh [97, 0, 98] [118] = (0, db1)" and
    inv1: "kvm_inv db1 ((unat (write_pos fresh), stored [97, 0, 98], stored [118]) # es)"
    by blast
  from kvm_get_inv[OF inv1, of "[97]"] have "kvm_get db1 [97] = Some (Some [118], db1)"
    by (simp add: st)
  with p1 show ?thesis
    by simp
qed

text \<open>
  C6. Over any sequence of calls on an open handle every call returns, the write cursor
  never moves back and never passes the size of the region, and an insertion whose entry
  would carry the cursor past that size returns \<open>-1\<close> and leaves the handle as it was.
\<close>

theorem write_pos_monotone_bounded:
  assumes "reachable db"
  shows "\<exists>db'. exec db ops = Some db' \<and> write_pos db \<le> write_pos db' \<and>
           write_pos db' \<le> mem_size db' \<and>
           (\<forall>k v. unat (mem_size db')
                     < unat (write_pos db') + unat (entry_size (of_nat (strlen k)) (of_nat (strlen v)))
                   \<longrightarrow> kvm_put db' k v = (- 1, db'))"
proof -
  from assms obtain es where inv: "kvm_inv db es"
    using reachable_inv by blast
  from exec_inv[OF inv, of ops] obtain db' es' where
    e: "exec db ops = Some db'" and inv': "kvm_inv db' (es' @ es)" and
    mono: "unat (write_pos db) \<le> unat (write_pos db')"
    by blast
  from inv' have ms: "unat (mem_size db') = POOL_SIZE" and le: "unat (write_pos db') \<le> POOL_SIZE"
    by (simp_all add: kvm_inv_def DATA_OFF_val unat_of_nat)
  have "kvm_put db' k v = (- 1, db')"
    if "unat (mem_size db') < unat (write_pos db') + unat (entry_size (of_nat (strlen k)) (of_nat (strlen v)))"
    for k v
    using that kvm_put_full[OF inv', of k v] by (simp add: ms entry_size_unat length_stored)
  with e mono le ms show ?thesis
    by (auto simp add: word_le_nat_alt)
qed

theorem write_pos_monotone_bounded_witness:
  "\<exists>db'. exec fresh [Put [107] [118], Get [107]] = Some db' \<and> write_pos fresh \<le> write_pos db' \<and>
     write_pos db' \<le> mem_size db' \<and> kvm_put db' (replicate 66945024 65) [] = (- 1, db')"
proof -
  let ?ops = "[Put [107] [118], Get [107]]"
  from write_pos_monotone_bounded[OF reachable_fresh, of ?ops] obtain db' where
    e: "exec fresh ?ops = Some db'" and mono: "write_pos fresh \<le> write_pos db'" and
    le: "write_pos db' \<le> mem_size db'" and
    full: "\<And>k v. unat (mem_size db')
                     < unat (write_pos db') + unat (entry_size (of_nat (strlen k)) (of_nat (strlen v)))
                   \<Longrightarrow> kvm_put db' k v = (- 1, db')"
    by blast
  have len: "strlen (replicate 66945024 (65 :: u8)) = 66945024"
    by (simp add: strlen_no_zero)
  have sz: "unat (entry_size (of_nat (strlen (replicate 66945024 (65 :: u8)))) 0) = 66945040"
    by (simp add: len entry_size_unat reserved_def round_up8_def sizeof_Entry_def unat_of_nat)
  from mono have "163840 \<le> unat (write_pos db')"
    by (simp add: word_le_nat_alt fresh_fields)
  moreover have "unat (mem_size db') = 67108864"
    using reachable_mem_size[OF exec_reachable[OF reachable_fresh e]] by (simp add: DATA_OFF_val)
  ultimately have "kvm_put db' (replicate 66945024 65) [] = (- 1, db')"
    by (intro full) (simp add: sz)
  with e mono le show ?thesis by blast
qed

text \<open>
  C7. A successful insertion is to move the cursor by the header size plus the lengths of
  key and value, rounded up to 8, and to write the entry at the old cursor. With the length
  kept in 32 bits, a key of \<open>2 ^ 32 + 1\<close> bytes is measured as one byte: the insertion
  succeeds, the cursor moves by 16 bytes and the entry holds key length 1 and one key byte.
\<close>

theorem put_advance_wrapped_key:
  "kvm_put fresh (replicate 4294967297 65) [] = (0, snd (kvm_put fresh (replicate 4294967297 65) [])) \<and>
   unat (write_pos (snd (kvm_put fresh (replicate 4294967297 65) []))) = unat (write_pos fresh) + 16 \<and>
   round_up8 (sizeof_Entry + strlen (replicate 4294967297 (65 :: u8)) + strlen []) = 4294967312 \<and>
   load32 (mem (snd (kvm_put fresh (replicate 4294967297 65) []))) (unat (write_pos fresh)) = 1 \<and>
   load_bytes (mem (snd (kvm_put fresh (replicate 4294967297 65) []))) (unat (write_pos fresh) + sizeof_Entry) 1 = [65]"
proof -
  obtain es where inv: "kvm_inv fresh es"
    using reachable_inv[OF reachable_fresh] by blast
  note st = stored_wrapped1 stored_empty
  have "unat (write_pos fresh) + reserved (length (stored (replicate 4294967297 (65 :: u8)))) (length (stored ([] :: bytes)))
          \<le> POOL_SIZE"
    by (simp add: st fresh_fields reserved_def round_up8_def sizeof_Entry_def DATA_OFF_val)
  from kvm_put_fits[OF inv this] obtain db' where
    p: "kvm_put fresh (replicate 4294967297 65) [] = (0, db')" and
    i: "kvm_inv db' ((unat (write_pos fresh), stored (replicate 4294967297 65), stored []) # es)" and
    w: "unat (write_pos db') = unat (write_pos fresh) + reserved (length (stored (replicate 4294967297 (65 :: u8)))) (length (stored ([] :: bytes)))"
    by blast
  from i have "entries_ok (mem db') (unat (write_pos db')) ((unat (write_pos fresh), [65], []) # es)"
    by (simp add: kvm_inv_def st)
  moreover have "strlen (replicate 4294967297 (65 :: u8)) = 4294967297"
    by (rule strlen_replicate) simp
  ultimately show ?thesis
    using p w by (simp add: st reserved_def round_up8_def sizeof_Entry_def)
qed

text \<open>
  C8. Opening is to fail with an allocation error when the region cannot be obtained. The
  code does not: when \<^verbatim>\<open>mmap\<close> fails it falls back to \<^verbatim>\<open>malloc\<close>, whose result
  it does not test, and when that fails too it clears the bitmap and the bucket table
  through the null pointer.
\<close>

theorem kvm_open_unchecked_malloc: "kvm_open True None None = Inl NullDereference"
  by (simp add: kvm_open_def)

text \<open>
  C9, as the code has it. Keys and values are texts ended by a zero byte: an insertion
  with room for the entry keeps of the key and of the value the bytes before the first
  zero byte (all of them when there is none), and a lookup with the same key returns that
  part of the value.
\<close>

theorem put_get_c_string_prefix:
  assumes "reachable db"
    and "unat (write_pos db) + reserved (strlen key) (strlen val) \<le> unat (mem_size db)"
  shows "\<exists>db'. kvm_put db key val = (0, db') \<and>
           kvm_get db' key = Some (Some (takeWhile (\<lambda>c. c \<noteq> 0) val), db') \<and>
           load_bytes (mem db') (unat (write_pos db) + sizeof_Entry) (strlen key)
             = takeWhile (\<lambda>c. c \<noteq> 0) key \<and>
           load_bytes (mem db') (unat (write_pos db) + sizeof_Entry + strlen key) (strlen val)
             = takeWhile (\<lambda>c. c \<noteq> 0) val"
proof -
  from assms(1) obtain es where inv: "kvm_inv db es"
    using reachable_inv by blast
  from assms have fits: "unat (write_pos db) + reserved (strlen key) (strlen val) \<le> POOL_SIZE"
    by (simp add: reachable_mem_size)
  note b = fits_strlen[OF fits]
  note sk = stored_strlen[OF b(1)] and sv = stored_strlen[OF b(2)]
  from fits have "unat (write_pos db) + reserved (length (stored key)) (length (stored val)) \<le> POOL_SIZE"
    by (simp only: sk(1) sv(1))
  from put_then_get[OF inv this] obtain db' where
    put: "kvm_put db key val = (0, db')" and get: "kvm_get db' key = Some (Some (stored val), db')"
    by blast
  from kvm_put_success(1)[OF inv put]
  have "entries_ok (mem db') (unat (write_pos db')) ((unat (write_pos db), stored key, stored val) # es)"
    by (simp add: kvm_inv_def)
  then have "load_bytes (mem db') (unat (write_pos db) + sizeof_Entry) (length (stored key)) = stored key"
    and "load_bytes (mem db') (unat (write_pos db) + sizeof_Entry + length (stored key)) (length (stored val))
           = stored val"
    by simp_all
  with put get show ?thesis
    by (simp add: sk(1) sv(1) sk(3)[symmetric] sv(3)[symmetric])
qed

theorem put_get_c_string_prefix_witness:
  "\<exists>db'. kvm_put fresh [107, 0, 120] [118, 49] = (0, db') \<and>
     kvm_get db' [107, 0, 120] = Some (Some [118, 49], db') \<and>
     load_bytes (mem db') (163840 + 12) 1 = [107] \<and>
     load_bytes (mem db') (163840 + 12 + 1) 2 = [118, 49]"
proof -
  have l: "strlen [107, 0, 120 :: u8] = 1" "strlen [118, 49 :: u8] = 2"
    by simp_all
  show ?thesis
    using put_get_c_string_prefix[of fresh "[107, 0, 120]" "[118, 49]", unfolded l]
    by (simp add: reachable_fresh fresh_fields reserved_def round_up8_def sizeof_Entry_def)
qed

text \<open>
  C9 as stated fails: a value with a zero byte in it is cut at that byte. After the
  insertion of the value \<open>[97, 0, 98]\<close> the lookup returns \<open>[97]\<close>.
\<close>

theorem embedded_null_truncated:
  "kvm_put fresh [107] [97, 0, 98] = (0, snd (kvm_put fresh [107] [97, 0, 98])) \<and>
   kvm_get (snd (kvm_put fresh [107] [97, 0, 98])) [107]
     = Some (Some [97], snd (kvm_put fresh [107] [97, 0, 98])) \<and>
   kvm_get (snd (kvm_put fresh [107] [97, 0, 98])) [107]
     \<noteq> Some (Some [97, 0, 98], snd (kvm_put fresh [107] [97, 0, 98]))"
proof -
  obtain es where inv: "kvm_inv fresh es"
    using reachable_inv[OF reachable_fresh] by blast
  have st: "stored [107 :: u8] = [107]" "stored [97, 0, 98 :: u8] = [97]"
    by (simp_all add: stored_def)
  have "unat (write_pos fresh) + reserved (length (stored [107 :: u8])) (length (stored [97, 0, 98 :: u8]))
          \<le> POOL_SIZE"
    by (simp add: st fresh_fields reserved_def round_up8_def sizeof_Entry_def DATA_OFF_val)
  from put_then_get[OF inv this] show ?thesis
    by (auto simp add: st)
qed

text \<open>
  C10. A lookup on an open handle returns, found or not, and the handle after the call is
  the handle before it: region (Bloom bitmap, bucket table, data zone), write cursor and
  entry count are the same.
\<close>

theorem get_read_only:
  assumes "reachable db"
  shows "\<exists>r. kvm_get db key = Some (r, db)"
proof -
  from assms obtain es where "kvm_inv db es"
    using reachable_inv by blast
  from kvm_get_inv[OF this, of key] show ?thesis by blast
qed

theorem get_read_only_witness:
  "\<exists>r. kvm_get (snd (kvm_put fresh [107] [118])) [107] = Some (r, snd (kvm_put fresh [107] [118]))"
proof -
  have "reachable (snd (kvm_put fresh [107] [118]))"
    by (rule reachable.put[OF reachable_fresh]) (rule surjective_pairing)
  from get_read_only[OF this] show ?thesis .
qed

end
